theory Spec2Isabelle
  imports Main "HOL-Library.Word"
begin

section \<open>Entries and frequency buckets (entry.go)\<close>

text \<open>
  An entry is the struct of entry.go. Its \<open>node\<close> field is the handle of the entry inside
  its bucket's linked list; a bucket is modelled as the list of the keys of its entries,
  front first, so the handle of an entry is the position of its key and needs no field.

  The Go code shares one \<open>*entry\<close> between the key table and a bucket. An entry is
  allocated only by \<open>Set\<close>, is stored under its own key and its \<open>key\<close> field is never
  assigned again, so a pointer to an entry is represented by that key: the key table holds
  the only copy of the entry's fields, and a write through the pointer is a write to the
  table at that key.

  Times are integers (nanoseconds); \<open>int\<close> fields of Go are unbounded integers here, since
  a frequency or a size of \<open>2^63\<close> is out of reach of any run. The three statistics
  counters are \<open>atomic.Int64\<close> and are 64-bit words, whose addition wraps.
\<close>

record ('k, 'v) entry =
  key :: 'k
  "value" :: 'v
  frequency :: int
  createdAt :: int

type_synonym 'k freqList = "'k list"

definition newFreqList :: "'k freqList" where
  "newFreqList = []"

definition pushFront :: "('k, 'v) entry \<Rightarrow> 'k freqList \<Rightarrow> 'k freqList" where
  "pushFront e f = key e # f"

definition remove_fl :: "('k, 'v) entry \<Rightarrow> 'k freqList \<Rightarrow> 'k freqList" where
  "remove_fl e f = remove1 (key e) f"

text \<open>\<open>removeOldest\<close> detaches the back element; \<open>None\<close> is Go's \<open>nil\<close> for an empty list.\<close>

definition removeOldest :: "'k freqList \<Rightarrow> 'k option \<times> 'k freqList" where
  "removeOldest f = (case f of [] \<Rightarrow> (None, f) | _ \<Rightarrow> (Some (last f), butlast f))"

definition isEmpty :: "'k freqList \<Rightarrow> bool" where
  "isEmpty f = (length f = 0)"

section \<open>The cache with time-to-live (part 2)\<close>

text \<open>
  \<open>NilDereference\<close> is the panic of calling \<open>remove\<close> on the \<open>nil\<close> bucket that a lookup
  of a missing frequency yields; \<open>CloseOfClosedChannel\<close> is the panic of \<open>close\<close> on a
  closed channel. \<open>DanglingEntry\<close> marks a bucket element whose key the key table does not
  hold: no Go value corresponds to it, and no run from \<open>New\<close> reaches it.

  A panic can be recovered by the caller, who then sees the cache as the panicking
  statement left it. So a panicking operation yields \<open>Inl (p, c)\<close>: the panic \<open>p\<close> together
  with the cache \<open>c\<close> holding every write made before the panic. An operation that returns
  yields \<open>Inr\<close> of its result.
\<close>

datatype panic = NilDereference | CloseOfClosedChannel | DanglingEntry

text \<open>
  The eviction callback acts on the world outside the cache: it is a function of the key,
  the value and that world (of any type \<open>'w\<close>), or \<open>None\<close> for Go's \<open>nil\<close>. The \<open>stop\<close>
  channel carries no value; all that matters of it is whether it has been closed.
\<close>

record ('k, 'v, 'w) LFUCache =
  capacity :: int
  size_c :: int
  ttl :: int
  cleanupInterval :: int
  keyMap :: "'k \<rightharpoonup> ('k, 'v) entry"
  freqMap :: "int \<rightharpoonup> 'k freqList"
  minFreq :: int
  stop_closed :: bool
  onEvict :: "('k \<Rightarrow> 'v \<Rightarrow> 'w \<Rightarrow> 'w) option"
  world :: 'w
  hits :: "64 word"
  misses :: "64 word"
  evictions :: "64 word"

type_synonym ('k, 'v, 'w) outcome = "(panic \<times> ('k, 'v, 'w) LFUCache) + ('k, 'v, 'w) LFUCache"

definition New ::
  "int \<Rightarrow> int \<Rightarrow> int \<Rightarrow> ('k \<Rightarrow> 'v \<Rightarrow> 'w \<Rightarrow> 'w) option \<Rightarrow> 'w \<Rightarrow> ('k, 'v, 'w) LFUCache" where
  "New cap t interval cb w =
     \<lparr>capacity = cap, size_c = 0, ttl = t, cleanupInterval = interval,
      keyMap = Map.empty, freqMap = Map.empty, minFreq = 0,
      stop_closed = False, onEvict = cb, world = w,
      hits = 0, misses = 0, evictions = 0\<rparr>"

text \<open>The guarded call \<open>if c.onEvict != nil { c.onEvict(e.key, e.value) }\<close>.\<close>

definition callOnEvict :: "('k, 'v) entry \<Rightarrow> ('k, 'v, 'w) LFUCache \<Rightarrow> ('k, 'v, 'w) LFUCache" where
  "callOnEvict e c =
     (case onEvict c of
        None \<Rightarrow> c
      | Some f \<Rightarrow> c\<lparr>world := f (key e) (value e) (world c)\<rparr>)"

text \<open>
  \<open>dropBucket\<close> is the block run after a bucket lost an element in \<open>increment\<close> and in
  \<open>deleteKey\<close>: an emptied bucket is deleted, and \<open>minFreq\<close> goes up by one when it
  pointed at that bucket.
\<close>

definition dropBucket :: "int \<Rightarrow> ('k, 'v, 'w) LFUCache \<Rightarrow> ('k, 'v, 'w) LFUCache" where
  "dropBucket f c =
     (case freqMap c f of
        None \<Rightarrow> c
      | Some l \<Rightarrow>
          if isEmpty l then
            (let c1 = c\<lparr>freqMap := (freqMap c)(f := None)\<rparr>
             in if minFreq c1 = f then c1\<lparr>minFreq := minFreq c1 + 1\<rparr> else c1)
          else c)"

text \<open>
  \<open>increment\<close> writes \<open>ent.frequency++\<close> before it touches the old bucket, so its panic on a
  missing bucket leaves the raised frequency behind.
\<close>

definition increment ::
  "('k, 'v) entry \<Rightarrow> ('k, 'v, 'w) LFUCache \<Rightarrow> ('k, 'v, 'w) outcome" where
  "increment ent c =
     (let oldFreq = frequency ent;
          ent1 = ent\<lparr>frequency := oldFreq + 1\<rparr>;
          c1 = c\<lparr>keyMap := (keyMap c)(key ent \<mapsto> ent1)\<rparr>
      in case freqMap c1 oldFreq of
           None \<Rightarrow> Inl (NilDereference, c1)
         | Some l \<Rightarrow>
             (let c2 = dropBucket oldFreq (c1\<lparr>freqMap := (freqMap c1)(oldFreq \<mapsto> remove_fl ent1 l)\<rparr>);
                  l2 = (case freqMap c2 (frequency ent1) of None \<Rightarrow> newFreqList | Some l' \<Rightarrow> l')
              in Inr (c2\<lparr>freqMap := (freqMap c2)(frequency ent1 \<mapsto> pushFront ent1 l2)\<rparr>)))"

definition evict :: "('k, 'v, 'w) LFUCache \<Rightarrow> ('k, 'v, 'w) outcome" where
  "evict c =
     (case freqMap c (minFreq c) of
        None \<Rightarrow> Inr c
      | Some l \<Rightarrow>
          (case removeOldest l of
             (None, _) \<Rightarrow> Inr c
           | (Some k, l') \<Rightarrow>
               (case keyMap c k of
                  None \<Rightarrow> Inl (DanglingEntry, c)
                | Some evicted \<Rightarrow>
                    (let c1 = c\<lparr>freqMap := (freqMap c)(minFreq c \<mapsto> l')\<rparr>;
                         c2 = c1\<lparr>keyMap := (keyMap c1)(key evicted := None),
                                 size_c := size_c c1 - 1,
                                 evictions := evictions c1 + 1\<rparr>;
                         c3 = (if isEmpty l' then c2\<lparr>freqMap := (freqMap c2)(minFreq c2 := None)\<rparr>
                               else c2)
                     in Inr (callOnEvict evicted c3)))))"

definition Len :: "('k, 'v, 'w) LFUCache \<Rightarrow> int" where
  "Len c = size_c c"

text \<open>The first statement of \<open>deleteKey\<close> is the one that can panic: nothing is written yet.\<close>

definition deleteKey ::
  "'k \<Rightarrow> ('k, 'v) entry \<Rightarrow> ('k, 'v, 'w) LFUCache \<Rightarrow> ('k, 'v, 'w) outcome" where
  "deleteKey k ent c =
     (case freqMap c (frequency ent) of
        None \<Rightarrow> Inl (NilDereference, c)
      | Some l \<Rightarrow>
          (let c1 = dropBucket (frequency ent)
                      (c\<lparr>freqMap := (freqMap c)(frequency ent \<mapsto> remove_fl ent l)\<rparr>);
               c2 = c1\<lparr>keyMap := (keyMap c1)(k := None),
                       size_c := size_c c1 - 1,
                       evictions := evictions c1 + 1\<rparr>
           in Inr (callOnEvict ent c2)))"

text \<open>
  \<open>Get\<close> and \<open>Set\<close> read the clock; the reading is the argument \<open>now\<close>. An entry is
  expired when \<open>time.Since(ent.createdAt) > c.ttl\<close>. The result \<open>None\<close> of \<open>Get\<close> is
  Go's \<open>(zero, false)\<close> and \<open>Some v\<close> is \<open>(v, true)\<close>.

  \<open>Get\<close> looks the key up under the read lock, releases it, and takes the write lock for
  \<open>deleteKey\<close> or \<open>increment\<close>. Here a call is one step: no other call runs between the
  lookup and the write. What two calls do when they overlap in that window is outside
  this model.
\<close>

definition Get ::
  "int \<Rightarrow> 'k \<Rightarrow> ('k, 'v, 'w) LFUCache
     \<Rightarrow> (panic \<times> ('k, 'v, 'w) LFUCache) + ('v option \<times> ('k, 'v, 'w) LFUCache)" where
  "Get now k c =
     (case keyMap c k of
        None \<Rightarrow> Inr (None, c\<lparr>misses := misses c + 1\<rparr>)
      | Some ent \<Rightarrow>
          if now - createdAt ent > ttl c then
            (case deleteKey k ent c of
               Inl p \<Rightarrow> Inl p
             | Inr c1 \<Rightarrow> Inr (None, c1\<lparr>misses := misses c1 + 1\<rparr>))
          else
            (case increment ent c of
               Inl p \<Rightarrow> Inl p
             | Inr c1 \<Rightarrow> Inr (Some (value ent), c1\<lparr>hits := hits c1 + 1\<rparr>)))"

definition Set ::
  "int \<Rightarrow> 'k \<Rightarrow> 'v \<Rightarrow> ('k, 'v, 'w) LFUCache \<Rightarrow> ('k, 'v, 'w) outcome" where
  "Set now k v c =
     (if capacity c = 0 then Inr c
      else case keyMap c k of
        Some ent \<Rightarrow>
          (let ent1 = ent\<lparr>value := v, createdAt := now\<rparr>
           in increment ent1 (c\<lparr>keyMap := (keyMap c)(k \<mapsto> ent1)\<rparr>))
      | None \<Rightarrow>
          (case (if size_c c \<ge> capacity c then evict c else Inr c) of
             Inl p \<Rightarrow> Inl p
           | Inr c1 \<Rightarrow>
               (let ent = \<lparr>key = k, value = v, frequency = 1, createdAt = now\<rparr>;
                    c2 = c1\<lparr>keyMap := (keyMap c1)(k \<mapsto> ent)\<rparr>;
                    l = (case freqMap c2 1 of None \<Rightarrow> newFreqList | Some l' \<Rightarrow> l')
                in Inr (c2\<lparr>freqMap := (freqMap c2)(1 \<mapsto> pushFront ent l),
                           minFreq := 1,
                           size_c := size_c c2 + 1\<rparr>))))"

text \<open>
  \<open>cleanupExpired\<close> ranges over the key table and deletes while it ranges. Go fixes no
  order for that; the order in which the keys come up is the argument \<open>order\<close>. A key
  deleted before its turn does not come up, so a key that the table no longer holds is
  skipped. \<open>deleteKey\<close> removes only the key at hand, so a pass visits every key the table
  held when the pass began: \<open>order\<close> lists these keys, each once.
\<close>

fun sweep :: "int \<Rightarrow> 'k list \<Rightarrow> ('k, 'v, 'w) LFUCache \<Rightarrow> ('k, 'v, 'w) outcome" where
  "sweep now [] c = Inr c"
| "sweep now (k # ks) c =
     (case keyMap c k of
        None \<Rightarrow> sweep now ks c
      | Some ent \<Rightarrow>
          if now - createdAt ent > ttl c then
            (case deleteKey k ent c of
               Inl p \<Rightarrow> Inl p
             | Inr c1 \<Rightarrow> sweep now ks c1)
          else sweep now ks c)"

definition cleanupExpired ::
  "int \<Rightarrow> 'k list \<Rightarrow> ('k, 'v, 'w) LFUCache \<Rightarrow> ('k, 'v, 'w) outcome" where
  "cleanupExpired now order c = sweep now order c"

text \<open>
  \<open>Stop\<close> is the single statement \<open>close(c.stop)\<close>. Closing a closed channel panics, and
  the panic comes before any write: the cache at the panic is the cache \<open>Stop\<close> was given.
\<close>

definition Stop :: "('k, 'v, 'w) LFUCache \<Rightarrow> ('k, 'v, 'w) outcome" where
  "Stop c =
     (if stop_closed c then Inl (CloseOfClosedChannel, c)
      else Inr (c\<lparr>stop_closed := True\<rparr>))"

text \<open>The cache an outcome leaves behind, whether the operation returned or panicked.\<close>

definition after :: "('k, 'v, 'w) outcome \<Rightarrow> ('k, 'v, 'w) LFUCache" where
  "after r = (case r of Inl (p, c) \<Rightarrow> c | Inr c \<Rightarrow> c)"

definition afterGet ::
  "(panic \<times> ('k, 'v, 'w) LFUCache) + ('v option \<times> ('k, 'v, 'w) LFUCache) \<Rightarrow> ('k, 'v, 'w) LFUCache" where
  "afterGet r = (case r of Inl (p, c) \<Rightarrow> c | Inr (v, c) \<Rightarrow> c)"

section \<open>The stop channel is written by Stop alone\<close>

lemma callOnEvict_stop_closed: "stop_closed (callOnEvict e c) = stop_closed c"
  by (simp add: callOnEvict_def split: option.splits)

lemma dropBucket_stop_closed: "stop_closed (dropBucket f c) = stop_closed c"
  by (simp add: dropBucket_def Let_def split: option.splits)

lemma increment_stop_closed: "stop_closed (after (increment ent c)) = stop_closed c"
  by (simp add: increment_def after_def Let_def dropBucket_stop_closed split: option.splits)

lemma deleteKey_stop_closed: "stop_closed (after (deleteKey k ent c)) = stop_closed c"
  by (simp add: deleteKey_def after_def Let_def dropBucket_stop_closed callOnEvict_stop_closed
      split: option.splits)

lemma evict_stop_closed: "stop_closed (after (evict c)) = stop_closed c"
  by (simp add: evict_def after_def Let_def callOnEvict_stop_closed
      split: option.splits prod.splits)

lemma Get_stop_closed: "stop_closed (afterGet (Get now k c)) = stop_closed c"
proof (cases "keyMap c k")
  case None
  then show ?thesis by (simp add: Get_def afterGet_def)
next
  case (Some ent)
  show ?thesis
  proof (cases "now - createdAt ent > ttl c")
    case True
    with Some deleteKey_stop_closed [of k ent c] show ?thesis
      by (auto simp: Get_def afterGet_def after_def split: sum.splits)
  next
    case False
    with Some increment_stop_closed [of ent c] show ?thesis
      by (auto simp: Get_def afterGet_def after_def split: sum.splits)
  qed
qed

lemma Set_stop_closed: "stop_closed (after (Set now k v c)) = stop_closed c"
proof (cases "capacity c = 0")
  case True
  then show ?thesis by (simp add: Set_def after_def)
next
  case cap: False
  show ?thesis
  proof (cases "keyMap c k")
    case (Some ent)
    with cap
      increment_stop_closed [of "ent\<lparr>value := v, createdAt := now\<rparr>"
        "c\<lparr>keyMap := (keyMap c)(k \<mapsto> ent\<lparr>value := v, createdAt := now\<rparr>)\<rparr>"]
    show ?thesis by (simp add: Set_def Let_def)
  next
    case None
    show ?thesis
    proof (cases "size_c c \<ge> capacity c")
      case True
      with cap None evict_stop_closed [of c] show ?thesis
        by (auto simp: Set_def after_def Let_def split: sum.splits)
    next
      case False
      with cap None show ?thesis by (simp add: Set_def after_def Let_def)
    qed
  qed
qed

lemma sweep_stop_closed: "stop_closed (after (sweep now ks c)) = stop_closed c"
proof (induction ks arbitrary: c)
  case Nil
  show ?case by (simp add: after_def)
next
  case (Cons k ks)
  show ?case
  proof (cases "keyMap c k")
    case None
    with Cons.IH show ?thesis by simp
  next
    case (Some ent)
    show ?thesis
    proof (cases "now - createdAt ent > ttl c")
      case False
      with Some Cons.IH show ?thesis by simp
    next
      case True
      show ?thesis
      proof (cases "deleteKey k ent c")
        case (Inl pc)
        with Some True deleteKey_stop_closed [of k ent c] show ?thesis
          by (cases pc) (simp add: after_def)
      next
        case (Inr c1)
        with Some True deleteKey_stop_closed [of k ent c] Cons.IH [of c1] show ?thesis
          by (simp add: after_def)
      qed
    qed
  qed
qed

lemma cleanupExpired_stop_closed:
  "stop_closed (after (cleanupExpired now order c)) = stop_closed c"
  by (simp add: cleanupExpired_def sweep_stop_closed)

section \<open>Stopping twice\<close>

text \<open>
  C5 (as the code has it). The first \<open>Stop\<close> on a cache whose stop channel is open returns
  normally and changes nothing but the channel, which is closed afterwards. A second
  \<open>Stop\<close> on that cache panics with close of closed channel, and the cache at the panic is
  the very cache the second call was given: the panic comes before any write, so every
  field is as the first \<open>Stop\<close> left it. A new cache has its stop channel open.
\<close>

theorem Stop_once_then_panic:
  assumes "\<not> stop_closed c"
  shows "Stop c = Inr (c\<lparr>stop_closed := True\<rparr>)
       \<and> Stop (c\<lparr>stop_closed := True\<rparr>) = Inl (CloseOfClosedChannel, c\<lparr>stop_closed := True\<rparr>)
       \<and> after (Stop (after (Stop c))) = after (Stop c)
       \<and> \<not> stop_closed (New cap t interval cb w)"
  using assms by (simp add: Stop_def New_def after_def)

theorem Stop_once_then_panic_witness:
  "Stop (New 2 50 10 None () :: (nat, nat, unit) LFUCache)
     = Inr ((New 2 50 10 None ())\<lparr>stop_closed := True\<rparr>)
   \<and> Stop ((New 2 50 10 None () :: (nat, nat, unit) LFUCache)\<lparr>stop_closed := True\<rparr>)
     = Inl (CloseOfClosedChannel, (New 2 50 10 None ())\<lparr>stop_closed := True\<rparr>)"
proof -
  have h: "\<not> stop_closed (New 2 50 10 None () :: (nat, nat, unit) LFUCache)"
    by (simp add: New_def)
  note r = Stop_once_then_panic [OF h, where cap = 0 and t = 0 and interval = 0
      and cb = "None :: (nat \<Rightarrow> nat \<Rightarrow> unit \<Rightarrow> unit) option" and w = "()"]
  from r show ?thesis by blast
qed

text \<open>
  The claim that \<open>Stop(); Stop()\<close> never panics fails on a new cache: the second call is
  the panic of closing a closed channel.
\<close>

theorem Stop_twice_counterexample:
  "(case Stop (New 2 50 10 None () :: (nat, nat, unit) LFUCache) of
      Inl pc \<Rightarrow> Some (fst pc)
    | Inr c \<Rightarrow> (case Stop c of Inl pc \<Rightarrow> Some (fst pc) | Inr c' \<Rightarrow> None))
   = Some CloseOfClosedChannel"
  by (simp add: Stop_def New_def)

section \<open>The invariant of the cache\<close>

text \<open>
  What every cache built by \<open>New\<close> and used through \<open>Get\<close>, \<open>Set\<close> and the sweeper
  satisfies. \<open>keys_ok\<close>: an entry is stored under its own key, has a frequency of at least
  one and of at least \<open>minFreq\<close>, and sits in the bucket of its frequency. \<open>buckets_ok\<close>: a
  bucket in the frequency index is not empty, holds no key twice, and holds only keys of
  entries with its frequency. \<open>size_ok\<close>: \<open>size\<close> counts the keys, does not exceed the
  capacity, and when the cache is full the bucket at \<open>minFreq\<close> exists.
\<close>

definition keys_ok :: "('k, 'v, 'w) LFUCache \<Rightarrow> bool" where
  "keys_ok c \<longleftrightarrow>
     (\<forall>k e. keyMap c k = Some e \<longrightarrow>
        key e = k \<and> 1 \<le> frequency e \<and> minFreq c \<le> frequency e \<and>
        (\<exists>l. freqMap c (frequency e) = Some l \<and> k \<in> set l))"

definition buckets_ok :: "('k, 'v, 'w) LFUCache \<Rightarrow> bool" where
  "buckets_ok c \<longleftrightarrow>
     (\<forall>f l. freqMap c f = Some l \<longrightarrow>
        l \<noteq> [] \<and> distinct l \<and> (\<forall>k \<in> set l. \<exists>e. keyMap c k = Some e \<and> frequency e = f))"

definition size_ok :: "('k, 'v, 'w) LFUCache \<Rightarrow> bool" where
  "size_ok c \<longleftrightarrow>
     finite (dom (keyMap c)) \<and> size_c c = int (card (dom (keyMap c))) \<and>
     0 \<le> capacity c \<and> size_c c \<le> capacity c \<and>
     (0 < size_c c \<and> size_c c = capacity c \<longrightarrow> freqMap c (minFreq c) \<noteq> None)"

definition cache_ok :: "('k, 'v, 'w) LFUCache \<Rightarrow> bool" where
  "cache_ok c \<longleftrightarrow> keys_ok c \<and> buckets_ok c \<and> size_ok c"

lemma cache_ok_New: "0 \<le> cap \<Longrightarrow> cache_ok (New cap t i cb w)"
  by (simp add: cache_ok_def keys_ok_def buckets_ok_def size_ok_def New_def)

lemma increment_fields:
  assumes "freqMap c (frequency ent) = Some l"
  shows "\<exists>c'. increment ent c = Inr c' \<and>
     keyMap c' = (keyMap c)(key ent \<mapsto> ent\<lparr>frequency := frequency ent + 1\<rparr>) \<and>
     freqMap c' =
       (if remove1 (key ent) l = [] then (freqMap c)(frequency ent := None)
        else (freqMap c)(frequency ent \<mapsto> remove1 (key ent) l))
       (frequency ent + 1 \<mapsto>
          key ent # (case freqMap c (frequency ent + 1) of None \<Rightarrow> [] | Some l' \<Rightarrow> l')) \<and>
     minFreq c' = (if remove1 (key ent) l = [] \<and> minFreq c = frequency ent
                   then minFreq c + 1 else minFreq c) \<and>
     size_c c' = size_c c \<and> capacity c' = capacity c \<and> ttl c' = ttl c \<and>
     onEvict c' = onEvict c \<and> world c' = world c \<and> hits c' = hits c \<and>
     misses c' = misses c \<and> evictions c' = evictions c \<and> stop_closed c' = stop_closed c"
  using assms
  by (simp add: increment_def dropBucket_def Let_def isEmpty_def remove_fl_def
      pushFront_def newFreqList_def cong: option.case_cong)

lemma deleteKey_fields:
  assumes "freqMap c (frequency ent) = Some l"
  shows "\<exists>c'. deleteKey k ent c = Inr c' \<and>
     keyMap c' = (keyMap c)(k := None) \<and>
     freqMap c' =
       (if remove1 (key ent) l = [] then (freqMap c)(frequency ent := None)
        else (freqMap c)(frequency ent \<mapsto> remove1 (key ent) l)) \<and>
     minFreq c' = (if remove1 (key ent) l = [] \<and> minFreq c = frequency ent
                   then minFreq c + 1 else minFreq c) \<and>
     size_c c' = size_c c - 1 \<and> capacity c' = capacity c \<and> ttl c' = ttl c \<and>
     onEvict c' = onEvict c \<and>
     world c' = (case onEvict c of None \<Rightarrow> world c
                 | Some f \<Rightarrow> f (key ent) (value ent) (world c)) \<and>
     hits c' = hits c \<and> misses c' = misses c \<and> evictions c' = evictions c + 1 \<and>
     stop_closed c' = stop_closed c"
  using assms
  by (simp add: deleteKey_def dropBucket_def Let_def isEmpty_def remove_fl_def
      callOnEvict_def split: option.splits)

lemma evict_fields:
  assumes "freqMap c (minFreq c) = Some l" "l \<noteq> []" "keyMap c (last l) = Some e"
  shows "\<exists>c'. evict c = Inr c' \<and>
     keyMap c' = (keyMap c)(key e := None) \<and>
     freqMap c' =
       (if butlast l = [] then (freqMap c)(minFreq c := None)
        else (freqMap c)(minFreq c \<mapsto> butlast l)) \<and>
     minFreq c' = minFreq c \<and>
     size_c c' = size_c c - 1 \<and> capacity c' = capacity c \<and> ttl c' = ttl c \<and>
     onEvict c' = onEvict c \<and>
     world c' = (case onEvict c of None \<Rightarrow> world c
                 | Some f \<Rightarrow> f (key e) (value e) (world c)) \<and>
     hits c' = hits c \<and> misses c' = misses c \<and> evictions c' = evictions c + 1 \<and>
     stop_closed c' = stop_closed c"
  using assms
  by (cases l) (simp_all add: evict_def removeOldest_def Let_def isEmpty_def
      callOnEvict_def split: option.splits)


lemma remove1_Nil_iff: "distinct l \<Longrightarrow> k \<in> set l \<Longrightarrow> remove1 k l = [] \<longleftrightarrow> l = [k]"
  by (cases l) (auto split: if_splits)

lemma cache_ok_increment:
  assumes w: "cache_ok c" and km: "keyMap c k = Some ent"
  shows "\<exists>c'. increment ent c = Inr c' \<and> cache_ok c' \<and>
           keyMap c' = (keyMap c)(k \<mapsto> ent\<lparr>frequency := frequency ent + 1\<rparr>) \<and>
           size_c c' = size_c c \<and> capacity c' = capacity c \<and> ttl c' = ttl c"
proof -
  from w km have ke: "key ent = k" and f1: "1 \<le> frequency ent"
    by (auto simp: cache_ok_def keys_ok_def)
  from w km obtain l where l: "freqMap c (frequency ent) = Some l" "k \<in> set l"
    by (auto simp: cache_ok_def keys_ok_def)
  from increment_fields [OF l(1)] obtain c' where c':
    "increment ent c = Inr c'"
    "keyMap c' = (keyMap c)(key ent \<mapsto> ent\<lparr>frequency := frequency ent + 1\<rparr>)"
    "freqMap c' =
       (if remove1 (key ent) l = [] then (freqMap c)(frequency ent := None)
        else (freqMap c)(frequency ent \<mapsto> remove1 (key ent) l))
       (frequency ent + 1 \<mapsto>
          key ent # (case freqMap c (frequency ent + 1) of None \<Rightarrow> [] | Some l' \<Rightarrow> l'))"
    "minFreq c' = (if remove1 (key ent) l = [] \<and> minFreq c = frequency ent
                   then minFreq c + 1 else minFreq c)"
    "size_c c' = size_c c" "capacity c' = capacity c" "ttl c' = ttl c"
    by blast
  from w l have dl: "distinct l" "l \<noteq> []" by (auto simp: cache_ok_def buckets_ok_def)
  have r: "remove1 k l = [] \<longleftrightarrow> l = [k]" using remove1_Nil_iff [OF dl(1) l(2)] .
  from w have wk0: "keys_ok c" and wb0: "buckets_ok c" and ws0: "size_ok c"
    by (auto simp: cache_ok_def)
  have wk: "keys_ok c'"
    unfolding keys_ok_def
  proof (intro allI impI)
    fix k' e' assume a: "keyMap c' k' = Some e'"
    show "key e' = k' \<and> 1 \<le> frequency e' \<and> minFreq c' \<le> frequency e' \<and>
        (\<exists>l. freqMap c' (frequency e') = Some l \<and> k' \<in> set l)"
    proof (cases "k' = k")
      case True
      from wk0 km have m0: "minFreq c \<le> frequency ent" by (auto simp: keys_ok_def)
      from True a c' ke have e': "e' = ent\<lparr>frequency := frequency ent + 1\<rparr>" by simp
      show ?thesis using f1 m0 ke True by (simp add: e' c')
    next
      case False
      with a c' ke have a0: "keyMap c k' = Some e'" by auto
      with wk0 obtain l' where l': "key e' = k'" "1 \<le> frequency e'" "minFreq c \<le> frequency e'"
        "freqMap c (frequency e') = Some l'" "k' \<in> set l'"
        by (auto simp: keys_ok_def)
      with False c' ke l r show ?thesis by (auto split: if_splits)
    qed
  qed
  have bk: "\<And>g b x. freqMap c g = Some b \<Longrightarrow> x \<in> set b \<Longrightarrow>
              \<exists>e. keyMap c x = Some e \<and> frequency e = g"
    and bd: "\<And>g b. freqMap c g = Some b \<Longrightarrow> b \<noteq> [] \<and> distinct b"
    using wb0 by (auto simp: buckets_ok_def)
  have nk: "\<And>b. freqMap c (frequency ent + 1) = Some b \<Longrightarrow> k \<notin> set b"
    using bk km by fastforce
  have kc: "\<And>x. x \<noteq> k \<Longrightarrow> keyMap c' x = keyMap c x"
    and kk: "keyMap c' k = Some (ent\<lparr>frequency := frequency ent + 1\<rparr>)"
    using c' ke by auto
  have wb: "buckets_ok c'"
    unfolding buckets_ok_def
  proof (intro allI impI)
    fix g l' assume a: "freqMap c' g = Some l'"
    consider "g = frequency ent + 1" | "g = frequency ent" | "g \<noteq> frequency ent + 1" "g \<noteq> frequency ent"
      by blast
    then show "l' \<noteq> [] \<and> distinct l' \<and> (\<forall>k \<in> set l'. \<exists>e. keyMap c' k = Some e \<and> frequency e = g)"
    proof cases
      case 1
      show ?thesis
      proof (cases "freqMap c (frequency ent + 1)")
        case None
        with 1 a c' ke have "l' = [k]" by (auto split: if_splits)
        with kk 1 show ?thesis by simp
      next
        case (Some b)
        with 1 a c' ke have l': "l' = k # b" by (auto split: if_splits)
        have "\<And>x. x \<in> set b \<Longrightarrow> \<exists>e. keyMap c' x = Some e \<and> frequency e = g"
          using bk [OF Some] nk [OF Some] kc 1 by metis
        with l' kk 1 nk [OF Some] bd [OF Some] show ?thesis by auto
      qed
    next
      case 2
      with a c' ke have l': "l' = remove1 k l" "remove1 k l \<noteq> []" by (auto split: if_splits)
      have "\<And>x. x \<in> set l' \<Longrightarrow> x \<noteq> k \<and> x \<in> set l" using l' dl by auto
      then have "\<And>x. x \<in> set l' \<Longrightarrow> \<exists>e. keyMap c' x = Some e \<and> frequency e = g"
        using bk [OF l(1)] kc 2 by metis
      with l' dl show ?thesis by auto
    next
      case 3
      with a c' have a0: "freqMap c g = Some l'" by (auto split: if_splits)
      have "\<And>x. x \<in> set l' \<Longrightarrow> x \<noteq> k" using bk [OF a0] km 3 by fastforce
      then have "\<And>x. x \<in> set l' \<Longrightarrow> \<exists>e. keyMap c' x = Some e \<and> frequency e = g"
        using bk [OF a0] kc by metis
      with bd [OF a0] show ?thesis by auto
    qed
  qed
  have ws: "size_ok c'"
    using ws0 c' ke km r l
    by (auto simp: size_ok_def insert_absorb domI split: if_splits)
  from wk wb ws c' ke show ?thesis by (auto simp: cache_ok_def)
qed


lemma cache_ok_remove:
  assumes w: "cache_ok c" and km: "keyMap c k = Some ent"
    and l: "freqMap c (frequency ent) = Some l"
    and k': "keyMap c' = (keyMap c)(k := None)"
    and f': "freqMap c' =
       (if remove1 k l = [] then (freqMap c)(frequency ent := None)
        else (freqMap c)(frequency ent \<mapsto> remove1 k l))"
    and m': "minFreq c' = minFreq c \<or>
             (minFreq c' = minFreq c + 1 \<and> remove1 k l = [] \<and> minFreq c = frequency ent)"
    and s': "size_c c' = size_c c - 1" and c': "capacity c' = capacity c"
  shows "cache_ok c'"
proof -
  from w have wk0: "keys_ok c" and wb0: "buckets_ok c" and ws0: "size_ok c"
    by (auto simp: cache_ok_def)
  from wk0 km obtain l0 where "freqMap c (frequency ent) = Some l0" "k \<in> set l0"
    unfolding keys_ok_def by blast
  with l have kl: "k \<in> set l" by simp
  have bk: "\<And>g b x. freqMap c g = Some b \<Longrightarrow> x \<in> set b \<Longrightarrow>
              \<exists>e. keyMap c x = Some e \<and> frequency e = g"
    and bd: "\<And>g b. freqMap c g = Some b \<Longrightarrow> b \<noteq> [] \<and> distinct b"
    using wb0 by (auto simp: buckets_ok_def)
  from bd [OF l] have dl: "distinct l" "l \<noteq> []" by auto
  have r: "remove1 k l = [] \<longleftrightarrow> l = [k]" using remove1_Nil_iff [OF dl(1) kl] .
  have kc: "\<And>x. x \<noteq> k \<Longrightarrow> keyMap c' x = keyMap c x" and kk: "keyMap c' k = None"
    using k' by auto
  have wk: "keys_ok c'"
    unfolding keys_ok_def
  proof (intro allI impI)
    fix x e assume a: "keyMap c' x = Some e"
    with kk have xk: "x \<noteq> k" by auto
    with a kc have a0: "keyMap c x = Some e" by simp
    with wk0 obtain b where b: "key e = x" "1 \<le> frequency e" "minFreq c \<le> frequency e"
      "freqMap c (frequency e) = Some b" "x \<in> set b"
      by (auto simp: keys_ok_def)
    have ne: "frequency e = frequency ent \<Longrightarrow> remove1 k l \<noteq> [] \<and> x \<in> set (remove1 k l)"
      using b l xk r by auto
    have "frequency e \<noteq> frequency ent" if "remove1 k l = []"
      using ne that by blast
    then have m: "minFreq c' \<le> frequency e"
      using m' b(3) by (elim disjE) (simp, arith)
    have "\<exists>l. freqMap c' (frequency e) = Some l \<and> x \<in> set l"
      using f' b ne by (cases "frequency e = frequency ent") auto
    with b m show "key e = x \<and> 1 \<le> frequency e \<and> minFreq c' \<le> frequency e \<and>
        (\<exists>l. freqMap c' (frequency e) = Some l \<and> x \<in> set l)" by simp
  qed
  have wb: "buckets_ok c'"
    unfolding buckets_ok_def
  proof (intro allI impI)
    fix g b assume a: "freqMap c' g = Some b"
    show "b \<noteq> [] \<and> distinct b \<and> (\<forall>x \<in> set b. \<exists>e. keyMap c' x = Some e \<and> frequency e = g)"
    proof (cases "g = frequency ent")
      case True
      with a f' have b: "b = remove1 k l" "remove1 k l \<noteq> []" by (auto split: if_splits)
      have "\<And>x. x \<in> set b \<Longrightarrow> x \<noteq> k \<and> x \<in> set l" using b dl by auto
      then have "\<And>x. x \<in> set b \<Longrightarrow> \<exists>e. keyMap c' x = Some e \<and> frequency e = g"
        using bk [OF l] kc True by metis
      with b dl show ?thesis by auto
    next
      case False
      with a f' have a0: "freqMap c g = Some b" by (auto split: if_splits)
      have "\<And>x. x \<in> set b \<Longrightarrow> x \<noteq> k" using bk [OF a0] km False by fastforce
      then have "\<And>x. x \<in> set b \<Longrightarrow> \<exists>e. keyMap c' x = Some e \<and> frequency e = g"
        using bk [OF a0] kc by metis
      with bd [OF a0] show ?thesis by auto
    qed
  qed
  have kd: "k \<in> dom (keyMap c)" using km by auto
  have "card (dom (keyMap c) - {k}) = card (dom (keyMap c)) - 1"
    using ws0 kd by (simp add: size_ok_def)
  moreover have "0 < card (dom (keyMap c))" using ws0 kd by (auto simp: size_ok_def card_gt_0_iff)
  ultimately have ws: "size_ok c'"
    using ws0 k' s' c' by (auto simp: size_ok_def)
  from wk wb ws show ?thesis by (simp add: cache_ok_def)
qed

lemma cache_ok_deleteKey:
  assumes w: "cache_ok c" and km: "keyMap c k = Some ent"
  shows "\<exists>c'. deleteKey k ent c = Inr c' \<and> cache_ok c' \<and>
           keyMap c' = (keyMap c)(k := None) \<and>
           size_c c' = size_c c - 1 \<and> capacity c' = capacity c \<and> ttl c' = ttl c"
proof -
  from w km have ke: "key ent = k" by (auto simp: cache_ok_def keys_ok_def)
  from w km obtain l where l: "freqMap c (frequency ent) = Some l"
    by (auto simp: cache_ok_def keys_ok_def)
  from deleteKey_fields [OF l, of k] obtain c' where c':
    "deleteKey k ent c = Inr c'"
    "keyMap c' = (keyMap c)(k := None)"
    "freqMap c' =
       (if remove1 (key ent) l = [] then (freqMap c)(frequency ent := None)
        else (freqMap c)(frequency ent \<mapsto> remove1 (key ent) l))"
    "minFreq c' = (if remove1 (key ent) l = [] \<and> minFreq c = frequency ent
                   then minFreq c + 1 else minFreq c)"
    "size_c c' = size_c c - 1" "capacity c' = capacity c" "ttl c' = ttl c"
    by blast
  have "cache_ok c'"
    by (rule cache_ok_remove [OF w km l c'(2) _ _ c'(5) c'(6)]) (use c' ke in \<open>auto split: if_splits\<close>)
  with c' show ?thesis by blast
qed

lemma cache_ok_evict:
  assumes w: "cache_ok c" and l: "freqMap c (minFreq c) = Some l"
  shows "\<exists>c' e. evict c = Inr c' \<and> cache_ok c' \<and> l \<noteq> [] \<and> keyMap c (last l) = Some e \<and>
           frequency e = minFreq c \<and>
           keyMap c' = (keyMap c)(last l := None) \<and> minFreq c' = minFreq c \<and>
           size_c c' = size_c c - 1 \<and> capacity c' = capacity c \<and> ttl c' = ttl c"
proof -
  from w l have dl: "l \<noteq> []" "distinct l" by (auto simp: cache_ok_def buckets_ok_def)
  then have ll: "last l \<in> set l" by simp
  with w l obtain e where e: "keyMap c (last l) = Some e" "frequency e = minFreq c"
    unfolding cache_ok_def buckets_ok_def by blast
  with w have ke: "key e = last l" by (auto simp: cache_ok_def keys_ok_def)
  have bl: "remove1 (last l) l = butlast l"
    using dl by (metis append_butlast_last_id distinct_append not_distinct_conv_prefix remove1_append remove1.simps list.set_intros(1) append_Nil2)
  from evict_fields [OF l dl(1) e(1)] obtain c' where c':
    "evict c = Inr c'"
    "keyMap c' = (keyMap c)(key e := None)"
    "freqMap c' =
       (if butlast l = [] then (freqMap c)(minFreq c := None)
        else (freqMap c)(minFreq c \<mapsto> butlast l))"
    "minFreq c' = minFreq c"
    "size_c c' = size_c c - 1" "capacity c' = capacity c" "ttl c' = ttl c"
    by blast
  have l2: "freqMap c (frequency e) = Some l" using l e by simp
  have k2: "keyMap c' = (keyMap c)(last l := None)" using c' ke by simp
  have "cache_ok c'"
    by (rule cache_ok_remove [OF w e(1) l2 k2 _ _ c'(5) c'(6)]) (use c' e bl in \<open>auto split: if_splits\<close>)
  with c' e dl k2 show ?thesis by blast
qed


lemma cache_ok_touch:
  assumes w: "cache_ok c" and km: "keyMap c k = Some ent"
  shows "cache_ok (c\<lparr>keyMap := (keyMap c)(k \<mapsto> ent\<lparr>value := v, createdAt := t\<rparr>)\<rparr>)"
proof -
  let ?c = "c\<lparr>keyMap := (keyMap c)(k \<mapsto> ent\<lparr>value := v, createdAt := t\<rparr>)\<rparr>"
  from w have wk0: "keys_ok c" and wb0: "buckets_ok c" and ws0: "size_ok c"
    by (auto simp: cache_ok_def)
  have "keys_ok ?c"
    using wk0 km unfolding keys_ok_def by (auto split: if_splits)
  moreover have "buckets_ok ?c"
    unfolding buckets_ok_def
  proof (intro allI impI)
    fix g b assume a: "freqMap ?c g = Some b"
    then have a0: "freqMap c g = Some b" by simp
    from wb0 a0 have b: "b \<noteq> []" "distinct b"
      "\<And>x. x \<in> set b \<Longrightarrow> \<exists>e. keyMap c x = Some e \<and> frequency e = g"
      unfolding buckets_ok_def by blast+
    have "\<exists>e. keyMap ?c x = Some e \<and> frequency e = g" if "x \<in> set b" for x
      using b(3) [OF that] km by (cases "x = k") auto
    with b show "b \<noteq> [] \<and> distinct b \<and> (\<forall>x \<in> set b. \<exists>e. keyMap ?c x = Some e \<and> frequency e = g)"
      by blast
  qed
  moreover have "size_ok ?c"
    using ws0 km by (auto simp: size_ok_def insert_absorb domI)
  ultimately show ?thesis by (simp add: cache_ok_def)
qed

lemma cache_ok_insert:
  assumes w: "cache_ok c" and km: "keyMap c k = None" and sz: "size_c c < capacity c"
  shows "cache_ok (c\<lparr>keyMap := (keyMap c)(k \<mapsto> \<lparr>key = k, value = v, frequency = 1, createdAt = t\<rparr>),
                     freqMap := (freqMap c)(1 \<mapsto> k # (case freqMap c 1 of None \<Rightarrow> [] | Some l \<Rightarrow> l)),
                     minFreq := 1, size_c := size_c c + 1\<rparr>)"
proof -
  let ?e = "\<lparr>key = k, value = v, frequency = 1, createdAt = t\<rparr>"
  let ?c = "c\<lparr>keyMap := (keyMap c)(k \<mapsto> ?e),
               freqMap := (freqMap c)(1 \<mapsto> k # (case freqMap c 1 of None \<Rightarrow> [] | Some l \<Rightarrow> l)),
               minFreq := 1, size_c := size_c c + 1\<rparr>"
  from w have wk0: "keys_ok c" and wb0: "buckets_ok c" and ws0: "size_ok c"
    by (auto simp: cache_ok_def)
  have bk: "\<And>g b x. freqMap c g = Some b \<Longrightarrow> x \<in> set b \<Longrightarrow>
              \<exists>e. keyMap c x = Some e \<and> frequency e = g"
    and bd: "\<And>g b. freqMap c g = Some b \<Longrightarrow> b \<noteq> [] \<and> distinct b"
    using wb0 by (auto simp: buckets_ok_def)
  have nk: "\<And>g b. freqMap c g = Some b \<Longrightarrow> k \<notin> set b"
    using bk km by fastforce
  have "keys_ok ?c"
    unfolding keys_ok_def
  proof (intro allI impI)
    fix x e assume a: "keyMap ?c x = Some e"
    show "key e = x \<and> 1 \<le> frequency e \<and> minFreq ?c \<le> frequency e \<and>
        (\<exists>l. freqMap ?c (frequency e) = Some l \<and> x \<in> set l)"
    proof (cases "x = k")
      case True
      with a have "e = ?e" by simp
      with True show ?thesis by simp
    next
      case False
      with a have a0: "keyMap c x = Some e" by simp
      with wk0 obtain b where b: "key e = x" "1 \<le> frequency e"
        "freqMap c (frequency e) = Some b" "x \<in> set b"
        unfolding keys_ok_def by blast
      then show ?thesis by (cases "frequency e = 1") auto
    qed
  qed
  moreover have "buckets_ok ?c"
    unfolding buckets_ok_def
  proof (intro allI impI)
    fix g b assume a: "freqMap ?c g = Some b"
    show "b \<noteq> [] \<and> distinct b \<and> (\<forall>x \<in> set b. \<exists>e. keyMap ?c x = Some e \<and> frequency e = g)"
    proof (cases "g = 1")
      case True
      show ?thesis
      proof (cases "freqMap c 1")
        case None
        with True a have "b = [k]" by auto
        with True show ?thesis by simp
      next
        case (Some b0)
        with True a have b: "b = k # b0" by auto
        have "\<exists>e. keyMap ?c x = Some e \<and> frequency e = g" if "x \<in> set b0" for x
          using bk [OF Some that] nk [OF Some] that True by (cases "x = k") auto
        with b bd [OF Some] nk [OF Some] True show ?thesis by auto
      qed
    next
      case False
      with a have a0: "freqMap c g = Some b" by simp
      have "\<exists>e. keyMap ?c x = Some e \<and> frequency e = g" if "x \<in> set b" for x
        using bk [OF a0 that] nk [OF a0] that by (cases "x = k") auto
      with bd [OF a0] show ?thesis by blast
    qed
  qed
  moreover have "size_ok ?c"
    using ws0 km sz by (auto simp: size_ok_def domIff)
  ultimately show ?thesis by (simp add: cache_ok_def)
qed

section \<open>Set, Get and the sweeper keep the invariant and do not panic\<close>

lemma Set_zero: "capacity c = 0 \<Longrightarrow> Set now k v c = Inr c"
  by (simp add: Set_def)

lemma Set_existing:
  assumes w: "cache_ok c" and cap: "capacity c \<noteq> 0" and km: "keyMap c k = Some ent"
  shows "\<exists>c'. Set now k v c = Inr c' \<and> cache_ok c' \<and>
           keyMap c' = (keyMap c)(k \<mapsto> ent\<lparr>value := v, createdAt := now,
                                              frequency := frequency ent + 1\<rparr>) \<and>
           size_c c' = size_c c \<and> capacity c' = capacity c \<and> ttl c' = ttl c"
proof -
  let ?e = "ent\<lparr>value := v, createdAt := now\<rparr>"
  let ?c = "c\<lparr>keyMap := (keyMap c)(k \<mapsto> ?e)\<rparr>"
  have w1: "cache_ok ?c" by (rule cache_ok_touch [OF w km])
  have k1: "keyMap ?c k = Some ?e" by simp
  from cache_ok_increment [OF w1 k1] obtain c' where c':
    "increment ?e ?c = Inr c'" "cache_ok c'"
    "keyMap c' = (keyMap ?c)(k \<mapsto> ?e\<lparr>frequency := frequency ?e + 1\<rparr>)"
    "size_c c' = size_c ?c" "capacity c' = capacity ?c" "ttl c' = ttl ?c"
    by blast
  have "Set now k v c = Inr c'"
    using cap km c'(1) by (simp add: Set_def Let_def)
  with c' show ?thesis by simp
qed

lemma Set_new_room:
  assumes w: "cache_ok c" and cap: "capacity c \<noteq> 0" and km: "keyMap c k = None"
    and sz: "size_c c < capacity c"
  shows "\<exists>c'. Set now k v c = Inr c' \<and> cache_ok c' \<and>
           keyMap c' = (keyMap c)(k \<mapsto> \<lparr>key = k, value = v, frequency = 1, createdAt = now\<rparr>) \<and>
           size_c c' = size_c c + 1 \<and> capacity c' = capacity c \<and> ttl c' = ttl c \<and>
           minFreq c' = 1"
proof -
  let ?c = "c\<lparr>keyMap := (keyMap c)(k \<mapsto> \<lparr>key = k, value = v, frequency = 1, createdAt = now\<rparr>),
               freqMap := (freqMap c)(1 \<mapsto> k # (case freqMap c 1 of None \<Rightarrow> [] | Some l \<Rightarrow> l)),
               minFreq := 1, size_c := size_c c + 1\<rparr>"
  have "Set now k v c = Inr ?c"
    using cap km sz
    by (simp add: Set_def Let_def pushFront_def newFreqList_def cong: option.case_cong)
  moreover have "cache_ok ?c" by (rule cache_ok_insert [OF w km sz])
  ultimately show ?thesis by simp
qed

lemma Set_new_full:
  assumes w: "cache_ok c" and cap: "capacity c \<noteq> 0" and km: "keyMap c k = None"
    and sz: "size_c c \<ge> capacity c"
  shows "\<exists>c' l e. freqMap c (minFreq c) = Some l \<and> l \<noteq> [] \<and>
           keyMap c (last l) = Some e \<and> frequency e = minFreq c \<and>
           Set now k v c = Inr c' \<and> cache_ok c' \<and>
           keyMap c' = (keyMap c)(last l := None,
                          k \<mapsto> \<lparr>key = k, value = v, frequency = 1, createdAt = now\<rparr>) \<and>
           size_c c' = size_c c \<and> capacity c' = capacity c \<and> ttl c' = ttl c \<and>
           minFreq c' = 1"
proof -
  from w have ws0: "size_ok c" by (simp add: cache_ok_def)
  with cap sz have full: "0 < size_c c" "size_c c = capacity c"
    by (auto simp: size_ok_def)
  with ws0 obtain l where l: "freqMap c (minFreq c) = Some l"
    by (auto simp: size_ok_def)
  from cache_ok_evict [OF w l] obtain c1 e where c1:
    "evict c = Inr c1" "cache_ok c1" "l \<noteq> []" "keyMap c (last l) = Some e"
    "frequency e = minFreq c" "keyMap c1 = (keyMap c)(last l := None)"
    "size_c c1 = size_c c - 1" "capacity c1 = capacity c" "ttl c1 = ttl c"
    by blast
  have k1: "keyMap c1 k = None" using c1 km by simp
  have s1: "size_c c1 < capacity c1" using c1 full by simp
  have cap1: "capacity c1 \<noteq> 0" using c1 cap by simp
  from Set_new_room [OF c1(2) cap1 k1 s1, of now v] obtain c' where c':
    "Set now k v c1 = Inr c'" "cache_ok c'"
    "keyMap c' = (keyMap c1)(k \<mapsto> \<lparr>key = k, value = v, frequency = 1, createdAt = now\<rparr>)"
    "size_c c' = size_c c1 + 1" "capacity c' = capacity c1" "ttl c' = ttl c1" "minFreq c' = 1"
    by blast
  have "Set now k v c = Set now k v c1"
    using cap km sz c1(1) k1 cap1 s1 by (simp add: Set_def)
  with c' c1 l show ?thesis by simp
qed

lemma cache_ok_Set:
  assumes w: "cache_ok c"
  shows "\<exists>c'. Set now k v c = Inr c' \<and> cache_ok c' \<and> capacity c' = capacity c \<and> ttl c' = ttl c"
proof (cases "capacity c = 0")
  case True
  with w Set_zero show ?thesis by fastforce
next
  case cap: False
  show ?thesis
  proof (cases "keyMap c k")
    case (Some ent)
    from Set_existing [OF w cap Some, of now v] show ?thesis by blast
  next
    case None
    show ?thesis
    proof (cases "size_c c < capacity c")
      case True
      from Set_new_room [OF w cap None True, of now v] show ?thesis by blast
    next
      case False
      then have "size_c c \<ge> capacity c" by simp
      from Set_new_full [OF w cap None this, of now v] show ?thesis by blast
    qed
  qed
qed

lemma Get_absent:
  "keyMap c k = None \<Longrightarrow> Get now k c = Inr (None, c\<lparr>misses := misses c + 1\<rparr>)"
  by (simp add: Get_def)

lemma cache_ok_counters:
  "cache_ok (c\<lparr>misses := m\<rparr>) = cache_ok c" "cache_ok (c\<lparr>hits := h\<rparr>) = cache_ok c"
  by (simp_all add: cache_ok_def keys_ok_def buckets_ok_def size_ok_def)

lemma cache_ok_Get:
  assumes w: "cache_ok c"
  shows "\<exists>r c'. Get now k c = Inr (r, c') \<and> cache_ok c' \<and> capacity c' = capacity c \<and>
           ttl c' = ttl c"
proof (cases "keyMap c k")
  case None
  with w show ?thesis by (simp add: Get_absent cache_ok_counters)
next
  case (Some ent)
  show ?thesis
  proof (cases "now - createdAt ent > ttl c")
    case True
    from cache_ok_deleteKey [OF w Some] obtain c1 where
      "deleteKey k ent c = Inr c1" "cache_ok c1" "capacity c1 = capacity c" "ttl c1 = ttl c"
      by blast
    with Some True show ?thesis by (simp add: Get_def cache_ok_counters)
  next
    case False
    from cache_ok_increment [OF w Some] obtain c1 where
      "increment ent c = Inr c1" "cache_ok c1" "capacity c1 = capacity c" "ttl c1 = ttl c"
      by blast
    with Some False show ?thesis by (simp add: Get_def cache_ok_counters)
  qed
qed

lemma cache_ok_sweep:
  "cache_ok c \<Longrightarrow> \<exists>c'. sweep now ks c = Inr c' \<and> cache_ok c' \<and> capacity c' = capacity c \<and>
           ttl c' = ttl c"
proof (induction ks arbitrary: c)
  case Nil
  then show ?case by simp
next
  case (Cons k ks)
  show ?case
  proof (cases "keyMap c k")
    case None
    with Cons show ?thesis by simp
  next
    case (Some ent)
    show ?thesis
    proof (cases "now - createdAt ent > ttl c")
      case False
      with Some Cons show ?thesis by simp
    next
      case True
      from cache_ok_deleteKey [OF Cons.prems Some] obtain c1 where c1:
        "deleteKey k ent c = Inr c1" "cache_ok c1" "capacity c1 = capacity c" "ttl c1 = ttl c"
        by blast
      from Cons.IH [OF c1(2)] obtain c' where
        "sweep now ks c1 = Inr c'" "cache_ok c'" "capacity c' = capacity c1" "ttl c' = ttl c1"
        by blast
      with Some True c1 show ?thesis by simp
    qed
  qed
qed

section \<open>Runs of a cache\<close>

text \<open>
  A call of the interface with the clock reading it makes; a sweeper pass is a call too,
  with the order in which its range yields the keys. \<open>run\<close> plays a list of calls one
  after the other, so a run is any interleaving of \<open>Get\<close>, \<open>Set\<close>, \<open>Len\<close> and sweeper
  passes, each running alone (the mutex). A run stops at the first panic.
\<close>

datatype ('k, 'v) call = CallGet int 'k | CallSet int 'k 'v | CallLen | CallSweep int "'k list"

datatype 'v reply = Got "'v option" | Done | Length int

fun step ::
  "('k, 'v) call \<Rightarrow> ('k, 'v, 'w) LFUCache
     \<Rightarrow> (panic \<times> ('k, 'v, 'w) LFUCache) + ('v reply \<times> ('k, 'v, 'w) LFUCache)" where
  "step (CallGet now k) c =
     (case Get now k c of Inl pc \<Rightarrow> Inl pc | Inr (r, c') \<Rightarrow> Inr (Got r, c'))"
| "step (CallSet now k v) c =
     (case Set now k v c of Inl pc \<Rightarrow> Inl pc | Inr c' \<Rightarrow> Inr (Done, c'))"
| "step CallLen c = Inr (Length (Len c), c)"
| "step (CallSweep now order) c =
     (case cleanupExpired now order c of Inl pc \<Rightarrow> Inl pc | Inr c' \<Rightarrow> Inr (Done, c'))"

fun run ::
  "('k, 'v) call list \<Rightarrow> ('k, 'v, 'w) LFUCache
     \<Rightarrow> (panic \<times> ('k, 'v, 'w) LFUCache) + ('v reply list \<times> ('k, 'v, 'w) LFUCache)" where
  "run [] c = Inr ([], c)"
| "run (x # xs) c =
     (case step x c of
        Inl pc \<Rightarrow> Inl pc
      | Inr (r, c') \<Rightarrow>
          (case run xs c' of Inl pc \<Rightarrow> Inl pc | Inr (rs, c'') \<Rightarrow> Inr (r # rs, c'')))"

lemma cache_ok_step:
  assumes "cache_ok c"
  shows "\<exists>r c'. step x c = Inr (r, c') \<and> cache_ok c' \<and> capacity c' = capacity c \<and> ttl c' = ttl c"
proof (cases x)
  case (CallGet now k)
  from cache_ok_Get [OF assms, of now k] obtain r c' where
    "Get now k c = Inr (r, c')" "cache_ok c'" "capacity c' = capacity c" "ttl c' = ttl c" by blast
  with CallGet show ?thesis by simp
next
  case (CallSet now k v)
  from cache_ok_Set [OF assms, of now k v] obtain c' where
    "Set now k v c = Inr c'" "cache_ok c'" "capacity c' = capacity c" "ttl c' = ttl c" by blast
  with CallSet show ?thesis by simp
next
  case CallLen
  with assms show ?thesis by simp
next
  case (CallSweep now order)
  from cache_ok_sweep [OF assms, of now order] obtain c' where
    "sweep now order c = Inr c'" "cache_ok c'" "capacity c' = capacity c" "ttl c' = ttl c" by blast
  with CallSweep show ?thesis by (simp add: cleanupExpired_def)
qed

lemma cache_ok_run:
  "cache_ok c \<Longrightarrow>
   \<exists>rs c'. run xs c = Inr (rs, c') \<and> cache_ok c' \<and> capacity c' = capacity c \<and> ttl c' = ttl c"
proof (induction xs arbitrary: c)
  case Nil
  then show ?case by simp
next
  case (Cons x xs)
  from cache_ok_step [OF Cons.prems, of x] obtain r c1 where c1:
    "step x c = Inr (r, c1)" "cache_ok c1" "capacity c1 = capacity c" "ttl c1 = ttl c" by blast
  from Cons.IH [OF c1(2)] obtain rs c' where
    "run xs c1 = Inr (rs, c')" "cache_ok c'" "capacity c' = capacity c1" "ttl c' = ttl c1" by blast
  with c1 show ?case by simp
qed

lemma reachable_ok:
  assumes "0 \<le> cap" and "run xs (New cap t i cb w) = Inr (rs, c)"
  shows "cache_ok c \<and> capacity c = cap \<and> ttl c = t"
proof -
  from cache_ok_run [OF cache_ok_New [OF assms(1)], of xs t i cb w] assms(2)
  show ?thesis by (auto simp: New_def)
qed


section \<open>The capacity bound\<close>








section \<open>Evaluating a run on given calls\<close>

lemmas eval_defs = New_def Set_def Get_def evict_def increment_def deleteKey_def dropBucket_def
  callOnEvict_def removeOldest_def isEmpty_def pushFront_def remove_fl_def newFreqList_def
  cleanupExpired_def Len_def Let_def

section \<open>Capacity eviction finds its victim\<close>




section \<open>Lazy expiry in Get\<close>





section \<open>What moves minFreq\<close>






section \<open>A sweeper pass\<close>










section \<open>Counters and the callback\<close>








section \<open>Set of a key the cache holds\<close>

text \<open>
  C7. In a cache of capacity at least one reached from \<open>New\<close>, a \<open>Set\<close> of a key that
  the cache holds returns; the entry of the key then has the new value, the timestamp
  \<open>now\<close> and its old frequency plus one, which is at least two; the key has left the
  bucket of the old frequency (deleted if the key was alone in it) and is at the front of
  the bucket of the new one; other entries, other buckets and \<open>size\<close> are as before. The
  buckets and \<open>minFreq\<close> after it are those after a \<open>Get\<close> hit of the same key.
\<close>

theorem Set_existing_key_promotes:
  assumes "1 \<le> cap"
    and "run xs (New cap t i cb w) = Inr (rs, c)"
    and "keyMap c k = Some ent"
  shows "\<exists>c' l. Set now k v c = Inr c' \<and>
           keyMap c' = (keyMap c)(k \<mapsto> ent\<lparr>value := v, createdAt := now,
                                              frequency := frequency ent + 1\<rparr>) \<and>
           1 \<le> frequency ent \<and>
           freqMap c (frequency ent) = Some l \<and> k \<in> set l \<and>
           freqMap c' =
             (if remove1 k l = [] then (freqMap c)(frequency ent := None)
              else (freqMap c)(frequency ent \<mapsto> remove1 k l))
             (frequency ent + 1 \<mapsto>
                k # (case freqMap c (frequency ent + 1) of None \<Rightarrow> [] | Some b \<Rightarrow> b)) \<and>
           size_c c' = size_c c \<and>
           (now' - createdAt ent \<le> ttl c \<longrightarrow>
              (\<exists>c2. Get now' k c = Inr (Some (value ent), c2) \<and>
                 keyMap c2 = (keyMap c)(k \<mapsto> ent\<lparr>frequency := frequency ent + 1\<rparr>) \<and>
                 freqMap c2 = freqMap c' \<and> minFreq c2 = minFreq c'))"
proof -
  from assms(1) have c0: "0 \<le> cap" by simp
  from reachable_ok [OF c0 assms(2)] have w: "cache_ok c" and cp: "capacity c = cap" by auto
  from assms(1) cp have cn: "capacity c \<noteq> 0" by simp
  from w assms(3) have ke: "key ent = k" and f1: "1 \<le> frequency ent"
    by (auto simp: cache_ok_def keys_ok_def)
  from w assms(3) obtain l where l: "freqMap c (frequency ent) = Some l" "k \<in> set l"
    by (auto simp: cache_ok_def keys_ok_def)
  let ?e = "ent\<lparr>value := v, createdAt := now\<rparr>"
  let ?c = "c\<lparr>keyMap := (keyMap c)(k \<mapsto> ?e)\<rparr>"
  have l0: "freqMap ?c (frequency ?e) = Some l" using l by simp
  from increment_fields [OF l0] obtain c' where c':
    "increment ?e ?c = Inr c'"
    "keyMap c' = (keyMap ?c)(key ?e \<mapsto> ?e\<lparr>frequency := frequency ?e + 1\<rparr>)"
    "freqMap c' =
       (if remove1 (key ?e) l = [] then (freqMap ?c)(frequency ?e := None)
        else (freqMap ?c)(frequency ?e \<mapsto> remove1 (key ?e) l))
       (frequency ?e + 1 \<mapsto>
          key ?e # (case freqMap ?c (frequency ?e + 1) of None \<Rightarrow> [] | Some l' \<Rightarrow> l'))"
    "minFreq c' = (if remove1 (key ?e) l = [] \<and> minFreq ?c = frequency ?e
                   then minFreq ?c + 1 else minFreq ?c)"
    "size_c c' = size_c ?c"
    by blast
  have s: "Set now k v c = Inr c'"
    using cn assms(3) c'(1) by (simp add: Set_def Let_def)
  have g: "\<exists>c2. Get now' k c = Inr (Some (value ent), c2) \<and>
                 keyMap c2 = (keyMap c)(k \<mapsto> ent\<lparr>frequency := frequency ent + 1\<rparr>) \<and>
                 freqMap c2 = freqMap c' \<and> minFreq c2 = minFreq c'"
    if ne: "now' - createdAt ent \<le> ttl c"
  proof -
    from increment_fields [OF l(1)] obtain c1 where c1:
      "increment ent c = Inr c1"
      "keyMap c1 = (keyMap c)(key ent \<mapsto> ent\<lparr>frequency := frequency ent + 1\<rparr>)"
      "freqMap c1 =
         (if remove1 (key ent) l = [] then (freqMap c)(frequency ent := None)
          else (freqMap c)(frequency ent \<mapsto> remove1 (key ent) l))
         (frequency ent + 1 \<mapsto>
            key ent # (case freqMap c (frequency ent + 1) of None \<Rightarrow> [] | Some l' \<Rightarrow> l'))"
      "minFreq c1 = (if remove1 (key ent) l = [] \<and> minFreq c = frequency ent
                     then minFreq c + 1 else minFreq c)"
      by blast
    have "Get now' k c = Inr (Some (value ent), c1\<lparr>hits := hits c1 + 1\<rparr>)"
      using assms(3) ne c1(1) by (simp add: Get_def)
    with c1 c' ke show ?thesis by simp
  qed
  from s c' ke f1 l g show ?thesis by simp
qed

text \<open>
  An instance: capacity 2, \<open>Set(1, 10)\<close> at time 0 and \<open>Set(2, 20)\<close> at time 1; then
  \<open>Set(1, 11)\<close> at time 5 gives key 1 the value 11, the timestamp 5 and frequency 2,
  leaves bucket 1 to key 2 and opens bucket 2 for key 1.
\<close>

theorem Set_existing_key_promotes_witness:
  "\<exists>rs c c'. run [CallSet 0 (1::nat) (10::nat), CallSet 1 2 20] (New 2 50 10 None ())
       = Inr (rs, c) \<and>
     keyMap c 1 = Some \<lparr>key = 1, value = 10, frequency = 1, createdAt = 0\<rparr> \<and>
     Set 5 1 11 c = Inr c' \<and>
     keyMap c' 1 = Some \<lparr>key = 1, value = 11, frequency = 2, createdAt = 5\<rparr> \<and>
     keyMap c' 2 = keyMap c 2 \<and>
     freqMap c' 1 = Some [2] \<and> freqMap c' 2 = Some [1] \<and> size_c c' = 2"
proof -
  let ?xs = "[CallSet 0 (1::nat) (10::nat), CallSet 1 2 20]"
  let ?c0 = "New 2 50 10 None () :: (nat, nat, unit) LFUCache"
  have "case run ?xs ?c0 of
          Inl pc \<Rightarrow> False
        | Inr (rs, c) \<Rightarrow> size_c c = 2 \<and> freqMap c 1 = Some [2, 1] \<and> freqMap c 2 = None \<and>
            keyMap c 1 = Some \<lparr>key = 1, value = 10, frequency = 1, createdAt = 0\<rparr>"
    by (simp add: eval_defs)
  then obtain rs c where r: "run ?xs ?c0 = Inr (rs, c)"
    and s: "size_c c = 2" "freqMap c 1 = Some [2, 1]" "freqMap c 2 = None"
    and k: "keyMap c 1 = Some \<lparr>key = 1, value = 10, frequency = 1, createdAt = 0\<rparr>"
    by (auto split: sum.splits)
  have h: "(1::int) \<le> 2" by simp
  from Set_existing_key_promotes [OF h r k, of 5 11] s obtain c' where c':
    "Set 5 1 11 c = Inr c'"
    "keyMap c' = (keyMap c)(1 \<mapsto> \<lparr>key = 1, value = 11, frequency = 2, createdAt = 5\<rparr>)"
    "freqMap c' = (freqMap c)(1 \<mapsto> [2], 2 \<mapsto> [1])"
    "size_c c' = 2"
    by auto
  then have "keyMap c' 1 = Some \<lparr>key = 1, value = 11, frequency = 2, createdAt = 5\<rparr>"
    "keyMap c' 2 = keyMap c 2" "freqMap c' 1 = Some [2]" "freqMap c' 2 = Some [1]"
    by simp_all
  with r k c' show ?thesis by blast
qed

section \<open>The cache without time-to-live (part 1)\<close>

text \<open>
  The earlier \<open>LFUCache\<close> of the repository: no time-to-live, no sweeper, no callback and
  no counters. Its names carry a \<open>P\<close>. It builds its entries with the struct literal of
  \<open>Set\<close>, which leaves \<open>createdAt\<close> at the zero time; that time is \<open>0\<close> here.
\<close>

record ('k, 'v) LFUCacheP =
  capacityP :: int
  sizeP :: int
  keyMapP :: "'k \<rightharpoonup> ('k, 'v) entry"
  freqMapP :: "int \<rightharpoonup> 'k freqList"
  minFreqP :: int

type_synonym ('k, 'v) outcomeP = "(panic \<times> ('k, 'v) LFUCacheP) + ('k, 'v) LFUCacheP"

definition NewP :: "int \<Rightarrow> ('k, 'v) LFUCacheP" where
  "NewP cap =
     \<lparr>capacityP = cap, sizeP = 0, keyMapP = Map.empty, freqMapP = Map.empty, minFreqP = 0\<rparr>"

definition dropBucketP :: "int \<Rightarrow> ('k, 'v) LFUCacheP \<Rightarrow> ('k, 'v) LFUCacheP" where
  "dropBucketP f p =
     (case freqMapP p f of
        None \<Rightarrow> p
      | Some l \<Rightarrow>
          if isEmpty l then
            (let p1 = p\<lparr>freqMapP := (freqMapP p)(f := None)\<rparr>
             in if minFreqP p1 = f then p1\<lparr>minFreqP := minFreqP p1 + 1\<rparr> else p1)
          else p)"

definition incrementP :: "('k, 'v) entry \<Rightarrow> ('k, 'v) LFUCacheP \<Rightarrow> ('k, 'v) outcomeP" where
  "incrementP ent p =
     (let oldFreq = frequency ent;
          ent1 = ent\<lparr>frequency := oldFreq + 1\<rparr>;
          p1 = p\<lparr>keyMapP := (keyMapP p)(key ent \<mapsto> ent1)\<rparr>
      in case freqMapP p1 oldFreq of
           None \<Rightarrow> Inl (NilDereference, p1)
         | Some l \<Rightarrow>
             (let p2 = dropBucketP oldFreq
                         (p1\<lparr>freqMapP := (freqMapP p1)(oldFreq \<mapsto> remove_fl ent1 l)\<rparr>);
                  l2 = (case freqMapP p2 (frequency ent1) of None \<Rightarrow> newFreqList | Some l' \<Rightarrow> l')
              in Inr (p2\<lparr>freqMapP := (freqMapP p2)(frequency ent1 \<mapsto> pushFront ent1 l2)\<rparr>)))"

definition evictP :: "('k, 'v) LFUCacheP \<Rightarrow> ('k, 'v) outcomeP" where
  "evictP p =
     (case freqMapP p (minFreqP p) of
        None \<Rightarrow> Inr p
      | Some l \<Rightarrow>
          (case removeOldest l of
             (None, _) \<Rightarrow> Inr p
           | (Some k, l') \<Rightarrow>
               (case keyMapP p k of
                  None \<Rightarrow> Inl (DanglingEntry, p)
                | Some evicted \<Rightarrow>
                    (let p1 = p\<lparr>freqMapP := (freqMapP p)(minFreqP p \<mapsto> l')\<rparr>;
                         p2 = p1\<lparr>keyMapP := (keyMapP p1)(key evicted := None),
                                 sizeP := sizeP p1 - 1\<rparr>
                     in Inr (if isEmpty l'
                             then p2\<lparr>freqMapP := (freqMapP p2)(minFreqP p2 := None)\<rparr>
                             else p2)))))"

definition GetP ::
  "'k \<Rightarrow> ('k, 'v) LFUCacheP \<Rightarrow> (panic \<times> ('k, 'v) LFUCacheP) + ('v option \<times> ('k, 'v) LFUCacheP)" where
  "GetP k p =
     (case keyMapP p k of
        Some ent \<Rightarrow>
          (case incrementP ent p of
             Inl pc \<Rightarrow> Inl pc
           | Inr p1 \<Rightarrow> Inr (Some (value ent), p1))
      | None \<Rightarrow> Inr (None, p))"

definition SetP :: "'k \<Rightarrow> 'v \<Rightarrow> ('k, 'v) LFUCacheP \<Rightarrow> ('k, 'v) outcomeP" where
  "SetP k v p =
     (if capacityP p = 0 then Inr p
      else case keyMapP p k of
        Some ent \<Rightarrow>
          (let ent1 = ent\<lparr>value := v\<rparr>
           in incrementP ent1 (p\<lparr>keyMapP := (keyMapP p)(k \<mapsto> ent1)\<rparr>))
      | None \<Rightarrow>
          (case (if sizeP p \<ge> capacityP p then evictP p else Inr p) of
             Inl pc \<Rightarrow> Inl pc
           | Inr p1 \<Rightarrow>
               (let ent = \<lparr>key = k, value = v, frequency = 1, createdAt = 0\<rparr>;
                    p2 = p1\<lparr>keyMapP := (keyMapP p1)(k \<mapsto> ent)\<rparr>;
                    l = (case freqMapP p2 1 of None \<Rightarrow> newFreqList | Some l' \<Rightarrow> l')
                in Inr (p2\<lparr>freqMapP := (freqMapP p2)(1 \<mapsto> pushFront ent l),
                           minFreqP := 1,
                           sizeP := sizeP p2 + 1\<rparr>))))"

definition LenP :: "('k, 'v) LFUCacheP \<Rightarrow> int" where
  "LenP p = sizeP p"

text \<open>
  The same calls on the cache without time-to-live: it reads no clock, so the clock
  reading of a call is dropped, and it has no sweeper, so a pass does nothing to it.
\<close>

fun stepP ::
  "('k, 'v) call \<Rightarrow> ('k, 'v) LFUCacheP
     \<Rightarrow> (panic \<times> ('k, 'v) LFUCacheP) + ('v reply \<times> ('k, 'v) LFUCacheP)" where
  "stepP (CallGet now k) p =
     (case GetP k p of Inl pc \<Rightarrow> Inl pc | Inr (r, p') \<Rightarrow> Inr (Got r, p'))"
| "stepP (CallSet now k v) p =
     (case SetP k v p of Inl pc \<Rightarrow> Inl pc | Inr p' \<Rightarrow> Inr (Done, p'))"
| "stepP CallLen p = Inr (Length (LenP p), p)"
| "stepP (CallSweep now order) p = Inr (Done, p)"

fun runP ::
  "('k, 'v) call list \<Rightarrow> ('k, 'v) LFUCacheP
     \<Rightarrow> (panic \<times> ('k, 'v) LFUCacheP) + ('v reply list \<times> ('k, 'v) LFUCacheP)" where
  "runP [] p = Inr ([], p)"
| "runP (x # xs) p =
     (case stepP x p of
        Inl pc \<Rightarrow> Inl pc
      | Inr (r, p') \<Rightarrow>
          (case runP xs p' of Inl pc \<Rightarrow> Inl pc | Inr (rs, p'') \<Rightarrow> Inr (r # rs, p'')))"

section \<open>The two caches agree while nothing expires\<close>

text \<open>
  \<open>unexpired xs c\<close>: along the run of \<open>xs\<close> from \<open>c\<close> there is no sweeper pass, and no
  \<open>Get\<close> meets an entry whose age exceeds the time-to-live. A run in which no entry ever
  ages beyond the time-to-live is such a run.
\<close>

fun fresh :: "('k, 'v) call \<Rightarrow> ('k, 'v, 'w) LFUCache \<Rightarrow> bool" where
  "fresh (CallGet now k) c =
     (case keyMap c k of None \<Rightarrow> True | Some e \<Rightarrow> now - createdAt e \<le> ttl c)"
| "fresh (CallSet now k v) c = True"
| "fresh CallLen c = True"
| "fresh (CallSweep now order) c = False"

fun unexpired :: "('k, 'v) call list \<Rightarrow> ('k, 'v, 'w) LFUCache \<Rightarrow> bool" where
  "unexpired [] c = True"
| "unexpired (x # xs) c =
     (fresh x c \<and> (case step x c of Inl pc \<Rightarrow> True | Inr (r, c') \<Rightarrow> unexpired xs c'))"

text \<open>What the cache without time-to-live keeps of a cache with it.\<close>

definition eraseE :: "('k, 'v) entry \<Rightarrow> ('k, 'v) entry" where
  "eraseE e = e\<lparr>createdAt := 0\<rparr>"

definition erase :: "('k, 'v, 'w) LFUCache \<Rightarrow> ('k, 'v) LFUCacheP" where
  "erase c =
     \<lparr>capacityP = capacity c, sizeP = size_c c,
      keyMapP = (\<lambda>k. map_option eraseE (keyMap c k)),
      freqMapP = freqMap c, minFreqP = minFreq c\<rparr>"

lemma erase_simps [simp]:
  "capacityP (erase c) = capacity c" "sizeP (erase c) = size_c c"
  "keyMapP (erase c) k = map_option eraseE (keyMap c k)"
  "freqMapP (erase c) = freqMap c" "minFreqP (erase c) = minFreq c"
  by (simp_all add: erase_def)

lemma eraseE_simps [simp]:
  "key (eraseE e) = key e" "value (eraseE e) = value e" "frequency (eraseE e) = frequency e"
  "eraseE (e\<lparr>frequency := f\<rparr>) = (eraseE e)\<lparr>frequency := f\<rparr>"
  "eraseE (e\<lparr>value := v\<rparr>) = (eraseE e)\<lparr>value := v\<rparr>"
  "eraseE (e\<lparr>createdAt := t\<rparr>) = eraseE e"
  by (simp_all add: eraseE_def)

lemma LFUCacheP_eqI:
  "capacityP p = capacityP q \<Longrightarrow> sizeP p = sizeP q \<Longrightarrow> (\<And>k. keyMapP p k = keyMapP q k) \<Longrightarrow>
   freqMapP p = freqMapP q \<Longrightarrow> minFreqP p = minFreqP q \<Longrightarrow> p = (q :: ('k, 'v) LFUCacheP)"
  by (cases p, cases q) (auto simp: fun_eq_iff)

lemma erase_New: "erase (New cap t i cb w) = NewP cap"
  by (rule LFUCacheP_eqI) (simp_all add: New_def NewP_def)

definition lift ::
  "(panic \<times> ('k, 'v, 'w) LFUCache) + ('r \<times> ('k, 'v, 'w) LFUCache)
     \<Rightarrow> (panic \<times> ('k, 'v) LFUCacheP) + ('r \<times> ('k, 'v) LFUCacheP)" where
  "lift r = (case r of Inl (pn, c) \<Rightarrow> Inl (pn, erase c) | Inr (x, c) \<Rightarrow> Inr (x, erase c))"

definition lift0 :: "('k, 'v, 'w) outcome \<Rightarrow> ('k, 'v) outcomeP" where
  "lift0 r = (case r of Inl (pn, c) \<Rightarrow> Inl (pn, erase c) | Inr c \<Rightarrow> Inr (erase c))"

lemma erase_increment: "incrementP (eraseE ent) (erase c) = lift0 (increment ent c)"
proof (cases "freqMap c (frequency ent)")
  case None
  then show ?thesis
    by (auto simp: incrementP_def increment_def lift0_def Let_def intro!: LFUCacheP_eqI)
next
  case (Some l)
  then show ?thesis
    by (auto simp: incrementP_def increment_def lift0_def Let_def dropBucket_def dropBucketP_def
        pushFront_def remove_fl_def isEmpty_def intro!: LFUCacheP_eqI)
qed

lemma erase_counters [simp]:
  "erase (c\<lparr>misses := m\<rparr>) = erase c" "erase (c\<lparr>hits := h\<rparr>) = erase c"
  "erase (c\<lparr>evictions := e\<rparr>) = erase c" "erase (c\<lparr>world := w\<rparr>) = erase c"
  by (simp_all add: erase_def)

lemma erase_callOnEvict [simp]: "erase (callOnEvict e c) = erase c"
  by (simp add: callOnEvict_def split: option.splits)

lemma erase_evict: "evictP (erase c) = lift0 (evict c)"
proof (cases "freqMap c (minFreq c)")
  case None
  then show ?thesis by (simp add: evictP_def evict_def lift0_def)
next
  case (Some l)
  show ?thesis
  proof (cases "removeOldest l")
    case (Pair ko l')
    show ?thesis
    proof (cases ko)
      case None
      with Some Pair show ?thesis by (simp add: evictP_def evict_def lift0_def)
    next
      case k: (Some k)
      show ?thesis
      proof (cases "keyMap c k")
        case None
        with Some Pair k show ?thesis by (simp add: evictP_def evict_def lift0_def)
      next
        case e: (Some evicted)
        with Some Pair k show ?thesis
          by (auto simp: evictP_def evict_def lift0_def Let_def intro!: LFUCacheP_eqI)
      qed
    qed
  qed
qed

lemma erase_keyMap_upd:
  "erase (c\<lparr>keyMap := (keyMap c)(k \<mapsto> e)\<rparr>)
     = (erase c)\<lparr>keyMapP := (keyMapP (erase c))(k \<mapsto> eraseE e)\<rparr>"
  by (rule LFUCacheP_eqI) (simp_all add: erase_def)

lemma erase_Set: "SetP k v (erase c) = lift0 (Set now k v c)"
proof (cases "capacity c = 0")
  case True
  then show ?thesis by (simp add: SetP_def Set_def lift0_def)
next
  case cap: False
  show ?thesis
  proof (cases "keyMap c k")
    case (Some ent)
    let ?e = "ent\<lparr>value := v, createdAt := now\<rparr>"
    have "SetP k v (erase c)
        = incrementP (eraseE ?e) (erase (c\<lparr>keyMap := (keyMap c)(k \<mapsto> ?e)\<rparr>))"
      using cap Some by (simp add: SetP_def Let_def erase_keyMap_upd)
    also have "\<dots> = lift0 (increment ?e (c\<lparr>keyMap := (keyMap c)(k \<mapsto> ?e)\<rparr>))"
      by (rule erase_increment)
    also have "\<dots> = lift0 (Set now k v c)"
      using cap Some by (simp add: Set_def Let_def)
    finally show ?thesis .
  next
    case None
    show ?thesis
    proof (cases "capacity c \<le> size_c c")
      case False
      with cap None show ?thesis
        by (auto simp: SetP_def Set_def lift0_def Let_def pushFront_def eraseE_def
            intro!: LFUCacheP_eqI)
    next
      case True
      show ?thesis
      proof (cases "evict c")
        case (Inl pc)
        with True cap None erase_evict [of c] show ?thesis
          by (cases pc) (simp add: SetP_def Set_def lift0_def)
      next
        case (Inr c1)
        with erase_evict [of c] have "evictP (erase c) = Inr (erase c1)"
          by (simp add: lift0_def)
        with Inr True cap None show ?thesis
          by (auto simp: SetP_def Set_def lift0_def Let_def pushFront_def eraseE_def
              intro!: LFUCacheP_eqI)
      qed
    qed
  qed
qed

lemma erase_Get:
  assumes "fresh (CallGet now k) c"
  shows "GetP k (erase c) = lift (Get now k c)"
proof (cases "keyMap c k")
  case None
  then show ?thesis by (simp add: GetP_def Get_def lift_def)
next
  case (Some ent)
  with assms have ne: "\<not> now - createdAt ent > ttl c" by simp
  show ?thesis
  proof (cases "increment ent c")
    case (Inl pc)
    with Some ne erase_increment [of ent c] show ?thesis
      by (cases pc) (simp add: GetP_def Get_def lift_def lift0_def)
  next
    case (Inr c1)
    with Some ne erase_increment [of ent c] show ?thesis
      by (simp add: GetP_def Get_def lift_def lift0_def)
  qed
qed

lemma erase_step:
  assumes "fresh x c"
  shows "stepP x (erase c) = lift (step x c)"
proof (cases x)
  case (CallGet now k)
  with assms erase_Get [of now k c] show ?thesis
    by (auto simp: lift_def split: sum.splits)
next
  case (CallSet now k v)
  with erase_Set [of k v c now] show ?thesis
    by (auto simp: lift_def lift0_def split: sum.splits)
next
  case CallLen
  then show ?thesis by (simp add: lift_def LenP_def Len_def)
next
  case (CallSweep now order)
  with assms show ?thesis by simp
qed

lemma erase_run:
  "unexpired xs c \<Longrightarrow> runP xs (erase c) = lift (run xs c)"
proof (induction xs arbitrary: c)
  case Nil
  show ?case by (simp add: lift_def)
next
  case (Cons x xs)
  from Cons.prems have f: "fresh x c" by simp
  show ?case
  proof (cases "step x c")
    case (Inl pc)
    with erase_step [OF f] show ?thesis by (cases pc) (simp add: lift_def)
  next
    case (Inr rc)
    obtain r c1 where rc: "rc = (r, c1)" by (cases rc)
    with Inr Cons.prems have u: "unexpired xs c1" by simp
    from erase_step [OF f] Inr rc have s: "stepP x (erase c) = Inr (r, erase c1)"
      by (simp add: lift_def)
    from Cons.IH [OF u] s Inr rc show ?thesis
      by (auto simp: lift_def split: sum.splits)
  qed
qed

text \<open>
  C10. Take a capacity that is not negative (so every capacity of at least one) and any
  list of \<open>Get\<close>, \<open>Set\<close> and \<open>Len\<close> calls along which no sweeper pass runs and no \<open>Get\<close>
  meets an entry older than the time-to-live. Run on a new cache with time-to-live and
  on a new cache without, both runs return, and they return the same result for every
  call of the list; afterwards the cache without time-to-live holds what the other one
  holds, timestamps, counters and callback aside.
\<close>

theorem ttl_and_plain_cache_agree:
  assumes "0 \<le> cap" and "unexpired xs (New cap t i cb w)"
  shows "\<exists>rs c. run xs (New cap t i cb w) = Inr (rs, c) \<and>
           runP xs (NewP cap) = Inr (rs, erase c)"
proof -
  from cache_ok_run [OF cache_ok_New [OF assms(1)], of xs t i cb w] obtain rs c where
    r: "run xs (New cap t i cb w) = Inr (rs, c)" by blast
  from erase_run [OF assms(2)] r have "runP xs (NewP cap) = Inr (rs, erase c)"
    by (simp add: erase_New lift_def)
  with r show ?thesis by blast
qed

text \<open>
  An instance: capacity 2, a time-to-live of 50 and calls at times 0 to 4, among them an
  eviction (of key 2, by \<open>Set(3)\<close>) and a \<open>Get\<close> of the evicted key.
\<close>

theorem ttl_and_plain_cache_agree_witness:
  "\<exists>c. run [CallSet 0 (1::nat) (10::nat), CallSet 1 2 20, CallGet 2 1, CallSet 3 3 30,
             CallGet 4 2, CallLen] (New 2 50 10 None ())
          = Inr ([Done, Done, Got (Some 10), Done, Got None, Length 2], c) \<and>
        runP [CallSet 0 (1::nat) (10::nat), CallSet 1 2 20, CallGet 2 1, CallSet 3 3 30,
              CallGet 4 2, CallLen] (NewP 2)
          = Inr ([Done, Done, Got (Some 10), Done, Got None, Length 2], erase c)"
proof -
  let ?xs = "[CallSet 0 (1::nat) (10::nat), CallSet 1 2 20, CallGet 2 1, CallSet 3 3 30,
              CallGet 4 2, CallLen]"
  let ?c0 = "New 2 50 10 None () :: (nat, nat, unit) LFUCache"
  have h: "(0::int) \<le> 2" by simp
  have u: "unexpired ?xs ?c0" by (simp add: eval_defs)
  have "case run ?xs ?c0 of
          Inl pc \<Rightarrow> False
        | Inr (rs, c) \<Rightarrow> rs = [Done, Done, Got (Some 10), Done, Got None, Length 2]"
    by (simp add: eval_defs)
  with ttl_and_plain_cache_agree [OF h u] show ?thesis by auto
qed

section \<open>Recency of touch\<close>

























end
